theory Spec2Isabelle
  imports Main "HOL-Library.Word"
begin

unbundle bit_operations_syntax

section \<open>The data of map.c\<close>

text \<open>
  The embedding follows \<^verbatim>\<open>src/MapA1/map.c\<close> function by function.

  \<^item> \<^verbatim>\<open>int64_t\<close> is \<open>64 word\<close>, \<^verbatim>\<open>unsigned int\<close> and \<^verbatim>\<open>int\<close> are \<open>32 word\<close>
    (\<open>+\<close>, \<open>-\<close>, \<open>*\<close> and the shift wrap around; \<open>unat\<close> reads a value as unsigned,
    \<open>word_sle\<close> and \<open>word_sless\<close> compare as two's complement).
  \<^item> A \<^verbatim>\<open>const char*\<close> that may be \<^verbatim>\<open>NULL\<close> is a \<open>string option\<close>. The \<open>string\<close> holds
    the bytes found at the pointer; the C string ends at the first zero byte, or at the
    end of the list when the list holds none. The map stores the pointers it is given
    and never copies or writes the bytes, so the model stores the bytes themselves:
    two equal pointers hold equal bytes, which is why the pointer test
    \<^verbatim>\<open>entry->key==key\<close> disappears behind \<^verbatim>\<open>strcmp\<close>.
  \<^item> A \<^verbatim>\<open>map_t*\<close> that may be \<^verbatim>\<open>NULL\<close> is a \<open>map_t option\<close>: the record is the struct
    the pointer refers to. Every public function returns the struct as it leaves it.
  \<^item> The slot array is a list of \<open>map_entry_t\<close>; a freed array (\<^verbatim>\<open>entries = NULL\<close>) is
    the empty list. Allocation failure, the byte count handed to \<^verbatim>\<open>malloc\<close> and the two
    \<^verbatim>\<open>printf\<close> calls are outside the model.
\<close>

text \<open>
  Modelled from the spec: \<^verbatim>\<open>map.h\<close> is not among the sources, so the two structs and the
  result codes are taken from the spec's data model and from the way \<^verbatim>\<open>map.c\<close> uses
  them. The slot has a 64-bit signed hash, a key and a value reference; the map has the
  tag \<^verbatim>\<open>magic\<close>, the three counters (copied by the code into \<^verbatim>\<open>unsigned int\<close> locals) and
  the slot array. The result codes are distinct values and \<^verbatim>\<open>OK\<close> is the one that
  \<^verbatim>\<open>map_optimize\<close> compares with \<^verbatim>\<open>0\<close>. Fields whose names clash with HOL constants or
  with the parameters of the functions carry the suffix \<open>_f\<close>.
\<close>

record map_entry_t =
  hash_f :: "64 word"
  key_f :: "string option"
  value_f :: "string option"

record map_t =
  magic :: "64 word"
  capacity :: "32 word"
  size_f :: "32 word"
  allocated :: "32 word"
  entries :: "map_entry_t list"

datatype rc =
    OK
  | KEY_EXISTS
  | REQUIRES_OPTIMIZATION
  | SYS_ERROR
  | NULL_POINTER
  | NOT_INITIALIZED
  | NO_KEY_EXISTS
  | ERR_NOT_IMPLEMENTED

definition MIN_EMPTY_SLOTS :: "32 word" where
  "MIN_EMPTY_SLOTS = push_bit 3 1"

definition MAGIC :: "64 word" where
  "MAGIC = 0x1234567890123456"

definition zero_entry :: map_entry_t where
  "zero_entry = \<lparr>hash_f = 0, key_f = None, value_f = None\<rparr>"

section \<open>The C library's strcmp\<close>

text \<open>
  \<^verbatim>\<open>strcmp\<close> walks both strings up to the first difference or the terminator; only
  whether it returns \<open>0\<close> matters to the map.
\<close>

fun strcmp :: "string \<Rightarrow> string \<Rightarrow> int" where
  "strcmp [] [] = 0"
| "strcmp [] (b # t) = (if b = CHR 0x00 then 0 else - 1)"
| "strcmp (a # s) [] = (if a = CHR 0x00 then 0 else 1)"
| "strcmp (a # s) (b # t) =
     (if a \<noteq> b then int (of_char a) - int (of_char b)
      else if a = CHR 0x00 then 0
      else strcmp s t)"

text \<open>The bytes of a C string: everything before the terminator.\<close>

definition cstr :: "string \<Rightarrow> string" where
  "cstr text = takeWhile (\<lambda>c. c \<noteq> CHR 0x00) text"

section \<open>fnv1_hash\<close>

text \<open>
  \<^verbatim>\<open>while (c != 0) { hash ^= c & 0xFF; hash *= 1099511628211L; c = *(text + i++); }\<close>
  The mask \<^verbatim>\<open>& 0xFF\<close> makes the byte unsigned whatever the signedness of \<^verbatim>\<open>char\<close>.
  The multiplication wraps at 64 bits.
\<close>

fun fnv1_loop :: "string \<Rightarrow> 64 word \<Rightarrow> 64 word" where
  "fnv1_loop [] hash = hash"
| "fnv1_loop (c # text) hash =
     (if c = CHR 0x00 then hash
      else fnv1_loop text ((hash XOR (of_char c AND 0xFF)) * 1099511628211))"

definition fnv1_hash :: "string \<Rightarrow> 64 word" where
  "fnv1_hash text = fnv1_loop text 0xCBF29CE484222325 OR 0x8000000000000000"

text \<open>
  The hash as the specification words it: start from the basis, for each byte of the
  string XOR it in and then multiply by the prime, at the end set the sign bit.
\<close>

definition fnv1_spec :: "string \<Rightarrow> 64 word" where
  "fnv1_spec text =
     foldl (\<lambda>h c. (h XOR of_char c) * 1099511628211) 0xCBF29CE484222325 (cstr text)
       OR push_bit 63 1"

section \<open>map_set\<close>

text \<open>
  The probe loop \<^verbatim>\<open>while (l-- > 0) { ... i = (i+1) & mask; }\<close> with its three ways out.
  \<open>key\<close> is the non-null key pointer both callers pass.
\<close>

function map_set_loop ::
  "map_t \<Rightarrow> string \<Rightarrow> string option \<Rightarrow> 64 word \<Rightarrow> 32 word \<Rightarrow> 32 word \<Rightarrow> 32 word \<Rightarrow> 32 word
     \<Rightarrow> rc \<times> map_t" where
  "map_set_loop self key val hash override mask_v i l =
     (if l = 0 then (REQUIRES_OPTIMIZATION, self)
      else
        let entry = entries self ! unat i in
        if hash_f entry = 0 then
          (OK, self\<lparr>entries := (entries self)[unat i :=
                       \<lparr>hash_f = hash, key_f = Some key, value_f = val\<rparr>],
                     allocated := allocated self + 1,
                     size_f := size_f self + 1\<rparr>)
        else if hash_f entry = hash \<and> key_f entry = None then
          (OK, self\<lparr>entries := (entries self)[unat i :=
                       entry\<lparr>key_f := Some key, value_f := val\<rparr>],
                     size_f := size_f self + 1\<rparr>)
        else if hash_f entry = hash \<and> strcmp (the (key_f entry)) key = 0 then
          (if override = 0 then (KEY_EXISTS, self)
           else (OK, self\<lparr>entries := (entries self)[unat i := entry\<lparr>value_f := val\<rparr>]\<rparr>))
        else map_set_loop self key val hash override mask_v ((i + 1) AND mask_v) (l - 1))"
  by pat_completeness auto
termination
  by (relation "measure (\<lambda>(self, key, val, hash, override, mask_v, i, l). unat l)")
     (auto simp: measure_unat)

definition map_set ::
  "map_t \<Rightarrow> string \<Rightarrow> string option \<Rightarrow> 64 word \<Rightarrow> 32 word \<Rightarrow> rc \<times> map_t" where
  "map_set self key val hash override =
     (let length_v = capacity self;
          mask_v = length_v - 1;
          i = ucast (hash AND ucast mask_v)
      in map_set_loop self key val hash override mask_v i length_v)"

section \<open>map_optimize\<close>

text \<open>
  \<^verbatim>\<open>while (newLength < minNewSize) newLength <<= 1;\<close> has no bound of its own: once the
  shift has pushed the only set bit out of the 32, \<open>newLength\<close> is \<open>0\<close> and stays below
  \<open>minNewSize\<close>. Not returning is the value \<open>None\<close>.
\<close>

partial_function (option) map_optimize_grow :: "32 word \<Rightarrow> 32 word \<Rightarrow> 32 word option" where
  "map_optimize_grow newLength minNewSize =
     (if newLength < minNewSize then map_optimize_grow (push_bit 1 newLength) minNewSize
      else Some newLength)"

text \<open>
  \<^verbatim>\<open>while (i++ < oldLength) { if (oldEntry->key != NULL) ...; oldEntry++; }\<close>:
  \<open>i\<close> counts the old slots already visited, \<open>self\<close> is the map being rebuilt.
\<close>

function map_optimize_loop ::
  "map_t \<Rightarrow> map_entry_t list \<Rightarrow> 32 word \<Rightarrow> 32 word \<Rightarrow> rc \<times> map_t" where
  "map_optimize_loop self oldEntries oldLength i =
     (if i < oldLength then
        (let oldEntry = oldEntries ! unat i in
         if key_f oldEntry \<noteq> None then
           (case map_set self (the (key_f oldEntry)) (value_f oldEntry) (hash_f oldEntry) 0 of
              (r, self') \<Rightarrow>
                if r \<noteq> OK then (SYS_ERROR, self')
                else map_optimize_loop self' oldEntries oldLength (i + 1))
         else map_optimize_loop self oldEntries oldLength (i + 1))
      else (OK, self))"
  by pat_completeness auto
termination
  apply (relation "measure (\<lambda>(self, oldEntries, oldLength, i). unat (oldLength - i))")
    apply simp
   apply (simp only: in_measure prod.case, unat_arith)
  apply (simp only: in_measure prod.case, unat_arith)
  done

definition map_optimize :: "map_t \<Rightarrow> (rc \<times> map_t) option" where
  "map_optimize self =
     (let oldLength = capacity self;
          oldSize = size_f self;
          oldEntries = entries self;
          minNewSize = oldSize + MIN_EMPTY_SLOTS
      in case map_optimize_grow MIN_EMPTY_SLOTS minNewSize of
           None \<Rightarrow> None
         | Some newLength \<Rightarrow>
             Some (map_optimize_loop
                     (self\<lparr>capacity := newLength, allocated := 0, size_f := 0,
                           entries := replicate (unat newLength) zero_entry\<rparr>)
                     oldEntries oldLength 0))"

section \<open>map_indexOf\<close>

text \<open>The result is the C \<^verbatim>\<open>int\<close>: the slot index, or \<open>-1\<close>.\<close>

function map_indexOf_loop ::
  "map_t \<Rightarrow> string \<Rightarrow> 64 word \<Rightarrow> 32 word \<Rightarrow> 32 word \<Rightarrow> 32 word \<Rightarrow> 32 word" where
  "map_indexOf_loop self key hash mask_v i l =
     (if l = 0 then - 1
      else
        let entry = entries self ! unat i in
        if hash_f entry = 0 then - 1
        else if hash_f entry = hash \<and> key_f entry \<noteq> None
                \<and> strcmp (the (key_f entry)) key = 0 then i
        else map_indexOf_loop self key hash mask_v ((i + 1) AND mask_v) (l - 1))"
  by pat_completeness auto
termination
  by (relation "measure (\<lambda>(self, key, hash, mask_v, i, l). unat l)")
     (auto simp: measure_unat)

definition map_indexOf :: "map_t \<Rightarrow> string \<Rightarrow> 64 word \<Rightarrow> 32 word" where
  "map_indexOf self key hash =
     (let length_v = capacity self;
          mask_v = length_v - 1;
          i = ucast (hash AND ucast mask_v)
      in map_indexOf_loop self key hash mask_v i length_v)"

section \<open>The public functions\<close>

definition map_init :: "map_t option \<Rightarrow> map_t option" where
  "map_init self =
     (case self of
        None \<Rightarrow> None
      | Some m \<Rightarrow>
          Some (m\<lparr>magic := MAGIC, capacity := MIN_EMPTY_SLOTS, size_f := 0, allocated := 0,
                  entries := replicate (unat MIN_EMPTY_SLOTS) zero_entry\<rparr>))"

definition map_put ::
  "map_t option \<Rightarrow> string option \<Rightarrow> string option \<Rightarrow> (rc \<times> map_t option) option" where
  "map_put self key val =
     (case self of
        None \<Rightarrow> Some (NULL_POINTER, self)
      | Some m \<Rightarrow>
         (case key of
            None \<Rightarrow> Some (NULL_POINTER, self)
          | Some k \<Rightarrow>
              if magic m \<noteq> MAGIC then Some (NOT_INITIALIZED, self)
              else
                let hash = fnv1_hash k;
                    i = map_indexOf m k hash
                in if word_sle 0 i then Some (KEY_EXISTS, self)
                   else
                     (case (if allocated m \<ge> capacity m
                            then map_option snd (map_optimize m)
                            else Some m) of
                        None \<Rightarrow> None
                      | Some m' \<Rightarrow>
                          (case map_set m' k val hash 0 of
                             (r, m'') \<Rightarrow> Some (r, Some m'')))))"

definition map_get :: "map_t option \<Rightarrow> string option \<Rightarrow> string option \<times> map_t option" where
  "map_get self key =
     (case self of
        None \<Rightarrow> (None, self)
      | Some m \<Rightarrow>
         (case key of
            None \<Rightarrow> (None, self)
          | Some k \<Rightarrow>
              if magic m \<noteq> MAGIC then (None, self)
              else
                let hash = fnv1_hash k;
                    i = map_indexOf m k hash
                in (if word_sless i 0 then None
                    else value_f (entries m ! nat (sint i)), self)))"

definition map_size :: "map_t option \<Rightarrow> 32 word \<times> map_t option" where
  "map_size self =
     (case self of
        None \<Rightarrow> (0, self)
      | Some m \<Rightarrow> if magic m \<noteq> MAGIC then (0, self) else (size_f m, self))"

definition map_remove :: "map_t option \<Rightarrow> string option \<Rightarrow> rc \<times> map_t option" where
  "map_remove self key =
     (case self of
        None \<Rightarrow> (NULL_POINTER, self)
      | Some m \<Rightarrow>
         (case key of
            None \<Rightarrow> (NULL_POINTER, self)
          | Some k \<Rightarrow>
              if magic m \<noteq> MAGIC then (NOT_INITIALIZED, self)
              else
                let hash = fnv1_hash k;
                    i = map_indexOf m k hash
                in if word_sle 0 i then
                     (OK, Some (m\<lparr>entries := (entries m)[nat (sint i) :=
                                      (entries m ! nat (sint i))\<lparr>key_f := None\<rparr>],
                                   size_f := size_f m - 1\<rparr>))
                   else (NO_KEY_EXISTS, self)))"

definition map_destroy :: "map_t option \<Rightarrow> map_t option" where
  "map_destroy self =
     (case self of
        None \<Rightarrow> None
      | Some m \<Rightarrow>
          if magic m \<noteq> MAGIC then self
          else Some (m\<lparr>entries := [], magic := 0\<rparr>))"

text \<open>
  The branch of \<^verbatim>\<open>map_put\<close> that calls \<^verbatim>\<open>map_optimize\<close>: the path condition of
  \<^verbatim>\<open>if (self->allocated >= self->capacity) map_optimize(self);\<close>.
\<close>

definition map_put_optimizes :: "map_t option \<Rightarrow> string option \<Rightarrow> bool" where
  "map_put_optimizes self key =
     (case self of
        None \<Rightarrow> False
      | Some m \<Rightarrow>
         (case key of
            None \<Rightarrow> False
          | Some k \<Rightarrow>
              magic m = MAGIC
              \<and> \<not> word_sle 0 (map_indexOf m k (fnv1_hash k))
              \<and> allocated m \<ge> capacity m))"

section \<open>Sequences of calls\<close>

text \<open>
  A caller's sequence of calls on one map pointer. A call that does not return
  (\<open>map_put\<close> through \<open>map_optimize\<close>) ends the run with \<open>None\<close>.
\<close>

datatype call =
    Put "string option" "string option"
  | Get "string option"
  | Remove "string option"
  | Size

fun exec :: "call \<Rightarrow> map_t option \<Rightarrow> map_t option option" where
  "exec (Put key val) self = map_option snd (map_put self key val)"
| "exec (Get key) self = Some (snd (map_get self key))"
| "exec (Remove key) self = Some (snd (map_remove self key))"
| "exec Size self = Some (snd (map_size self))"

fun run :: "call list \<Rightarrow> map_t option \<Rightarrow> map_t option option" where
  "run [] self = Some self"
| "run (c # cs) self = (case exec c self of None \<Rightarrow> None | Some self' \<Rightarrow> run cs self')"

text \<open>The calls that remove, and the calls that insert, the key \<open>k\<close>.\<close>

fun removes :: "string \<Rightarrow> call \<Rightarrow> bool" where
  "removes k (Remove (Some k')) = (strcmp k' k = 0)"
| "removes k c = False"

fun inserts :: "string \<Rightarrow> call \<Rightarrow> bool" where
  "inserts k (Put (Some k') v) = (strcmp k' k = 0)"
| "inserts k c = False"

text \<open>Puts of a list of pairs, one after the other, with the result codes.\<close>

fun put_all ::
  "(string \<times> string option) list \<Rightarrow> map_t option \<Rightarrow> (rc list \<times> map_t option) option" where
  "put_all [] self = Some ([], self)"
| "put_all ((k, v) # kvs) self =
     (case map_put self (Some k) v of
        None \<Rightarrow> None
      | Some (r, self') \<Rightarrow>
          (case put_all kvs self' of
             None \<Rightarrow> None
           | Some (rs, self'') \<Rightarrow> Some (r # rs, self'')))"

section \<open>The data-model invariants\<close>

text \<open>
  \<open>start_index\<close> is \<^verbatim>\<open>hash & mask\<close> as both probe loops compute it. A slot is empty when
  its hash is \<open>0\<close>, live when its key is present, a tombstone when its hash is set and
  its key is absent.
\<close>

definition start_index :: "32 word \<Rightarrow> 64 word \<Rightarrow> nat" where
  "start_index cap h = unat (ucast (h AND ucast (cap - 1)) :: 32 word)"

text \<open>
  Slot \<open>j\<close> is well placed: the linear probe that starts at the slot's own hash meets
  no empty slot before it reaches \<open>j\<close>.
\<close>

definition well_placed :: "map_t \<Rightarrow> nat \<Rightarrow> bool" where
  "well_placed m j =
     (let n = length (entries m);
          s = start_index (capacity m) (hash_f (entries m ! j))
      in \<forall>t \<in> {..<(j + n - s) mod n}. hash_f (entries m ! ((s + t) mod n)) \<noteq> 0)"

text \<open>
  The invariants of the data model: the slot array has \<open>capacity\<close> slots; the capacity
  is a power of two, at least 8; \<open>size\<close> counts the live slots and \<open>allocated\<close> the
  slots ever written; a live slot stores the hash of its key, is well placed, and is
  the only live slot with that key.
\<close>

definition valid :: "map_t \<Rightarrow> bool" where
  "valid m \<longleftrightarrow>
     length (entries m) = unat (capacity m)
     \<and> (\<exists>n \<in> {3..<32}. capacity m = 2 ^ n)
     \<and> unat (size_f m) = length (filter (\<lambda>e. key_f e \<noteq> None) (entries m))
     \<and> unat (allocated m) = length (filter (\<lambda>e. hash_f e \<noteq> 0) (entries m))
     \<and> (\<forall>j \<in> {..<length (entries m)}. \<forall>k. key_f (entries m ! j) = Some k \<longrightarrow>
           hash_f (entries m ! j) = fnv1_hash k
           \<and> well_placed m j
           \<and> (\<forall>i \<in> {..<length (entries m)}. \<forall>k'.
                 key_f (entries m ! i) = Some k' \<and> strcmp k' k = 0 \<longrightarrow> i = j))"

text \<open>The key \<open>k\<close> is stored: some live slot holds a string equal to it.\<close>

definition stored :: "map_t \<Rightarrow> string \<Rightarrow> bool" where
  "stored m k \<longleftrightarrow>
     (\<exists>e \<in> set (entries m). case key_f e of None \<Rightarrow> False | Some k' \<Rightarrow> strcmp k' k = 0)"

text \<open>
  Two abbreviations of the proofs: the slot \<open>e\<close> holds the key \<open>k\<close>, and the slot array
  of \<open>m\<close> has \<open>2 ^ n\<close> slots.
\<close>

definition matches :: "map_entry_t \<Rightarrow> string \<Rightarrow> bool" where
  "matches e k \<longleftrightarrow> (case key_f e of None \<Rightarrow> False | Some k' \<Rightarrow> strcmp k' k = 0)"

definition table :: "map_t \<Rightarrow> nat \<Rightarrow> bool" where
  "table m n \<longleftrightarrow> n < 32 \<and> capacity m = 2 ^ n \<and> length (entries m) = 2 ^ n"

text \<open>
  The content of the map, read off the slot array: the value stored under \<open>k\<close>
  (\<open>Some None\<close> is a stored \<^verbatim>\<open>NULL\<close> value), or \<open>None\<close> when no live slot holds \<open>k\<close>.
\<close>

definition content :: "map_t \<Rightarrow> string \<Rightarrow> string option option" where
  "content m k = map_option value_f (find (\<lambda>e. matches e k) (entries m))"

text \<open>
  What \<^verbatim>\<open>map_set\<close> leaves when it claims slot \<open>j\<close> for a new key, through either of its
  first two exits: the slot holds the new entry, \<open>size\<close> grows by one, and \<open>allocated\<close>
  grows by one when the slot was empty.
\<close>

definition place :: "map_t \<Rightarrow> string \<Rightarrow> string option \<Rightarrow> 64 word \<Rightarrow> nat \<Rightarrow> map_t" where
  "place m k v h j =
     m\<lparr>entries := (entries m)[j := \<lparr>hash_f = h, key_f = Some k, value_f = v\<rparr>],
       allocated := allocated m + (if hash_f (entries m ! j) = 0 then 1 else 0),
       size_f := size_f m + 1\<rparr>"

text \<open>A tombstone is a written slot without a key.\<close>

definition tombstone :: "map_entry_t \<Rightarrow> bool" where
  "tombstone e \<longleftrightarrow> hash_f e \<noteq> 0 \<and> key_f e = None"

declare map_set_loop.simps [simp del]
declare map_indexOf_loop.simps [simp del]
declare map_optimize_loop.simps [simp del]

section \<open>Strings and the hash\<close>

lemma of_char_eq_0_iff: "(of_char c :: nat) = 0 \<longleftrightarrow> c = CHR 0x00"
proof -
  have "(of_char c :: nat) = of_char (CHR 0x00) \<longleftrightarrow> c = CHR 0x00"
    by (rule of_char_eq_iff)
  then show ?thesis by simp
qed

lemma strcmp_eq_0_iff: "strcmp a b = 0 \<longleftrightarrow> cstr a = cstr b"
  by (induction a b rule: strcmp.induct)
     (auto simp: cstr_def of_char_eq_0_iff [symmetric] simp del: of_nat_eq_0_iff)

lemma of_char_and_FF: "(of_char c :: 64 word) AND 0xFF = of_char c"
proof -
  have m: "(0xFF :: 64 word) = mask 8" by (simp add: mask_eq_exp_minus_1)
  have n: "take_bit 8 (of_char c :: nat) = of_char c" by (simp add: take_bit_eq_mod)
  have "(of_char c :: 64 word) AND 0xFF = take_bit 8 (of_nat (of_char c))"
    by (simp only: m take_bit_eq_mask of_nat_of_char)
  also have "\<dots> = of_nat (take_bit 8 (of_char c :: nat))"
    by (simp only: take_bit_of_nat)
  finally show ?thesis by (simp only: n of_nat_of_char)
qed

lemma fnv1_loop_foldl:
  "fnv1_loop s h = foldl (\<lambda>h c. (h XOR of_char c) * 1099511628211) h (cstr s)"
  by (induction s arbitrary: h) (simp_all add: cstr_def of_char_and_FF)

lemma sign_bit_set: "sint ((x :: 64 word) OR push_bit 63 1) < 0"
proof -
  have "bit (x OR push_bit 63 1) (LENGTH(64) - Suc 0)"
    by (simp add: bit_or_iff bit_push_bit_iff)
  then show ?thesis
    by (simp only: bit_last_iff)
qed

lemma sign_const: "(0x8000000000000000 :: 64 word) = push_bit 63 1"
  by simp

lemma fnv1_hash_cstr: "cstr a = cstr b \<Longrightarrow> fnv1_hash a = fnv1_hash b"
  by (simp add: fnv1_hash_def fnv1_loop_foldl)

lemma fnv1_hash_nonzero: "fnv1_hash s \<noteq> 0"
proof -
  have "sint (fnv1_hash s) < 0"
    by (simp only: fnv1_hash_def sign_const sign_bit_set)
  then show ?thesis by auto
qed

section \<open>Cyclic indices and machine words\<close>

lemma cyc_back: "s < n \<Longrightarrow> j < n \<Longrightarrow> (s + (j + n - s) mod n) mod n = (j::nat)"
proof (cases "s \<le> j")
  case True
  assume "s < n" "j < n"
  with True have "(j + n - s) mod n = j - s"
    by (metis Nat.add_diff_assoc2 add.commute less_imp_diff_less mod_add_self1 mod_less)
  with True \<open>j < n\<close> show ?thesis by simp
next
  case False
  assume "s < n" "j < n"
  with False have "(j + n - s) mod n = j + n - s" by simp
  with False \<open>s < n\<close> \<open>j < n\<close> show ?thesis by simp
qed

lemma cyc_dist: "s < n \<Longrightarrow> t < n \<Longrightarrow> ((s + t) mod n + n - s) mod n = (t::nat)"
proof (cases "s + t < n")
  case True
  assume "s < n" "t < n"
  with True show ?thesis by simp
next
  case False
  assume "s < n" "t < n"
  with False have "(s + t) mod n = s + t - n"
    by (simp add: mod_if)
  with False \<open>s < n\<close> \<open>t < n\<close> show ?thesis by simp
qed

lemma cyc_dist_less: "0 < n \<Longrightarrow> (j + n - s) mod n < (n::nat)"
  by simp

lemma pow2_mask: "(2 ^ n - 1 :: 'a::len word) = mask n"
  by (simp add: mask_eq_exp_minus_1)

lemma next_index:
  assumes "n < 32" "unat (i :: 32 word) < 2 ^ n"
  shows "unat ((i + 1) AND (2 ^ n - 1)) = (unat i + 1) mod 2 ^ n"
proof -
  have d: "(2::nat) ^ n dvd 2 ^ 32"
    using assms(1) by (intro le_imp_power_dvd) simp
  have "unat ((i + 1) AND (2 ^ n - 1)) = take_bit n (unat (i + 1))"
    by (simp only: pow2_mask flip: take_bit_eq_mask unsigned_take_bit_eq)
  also have "\<dots> = unat (i + 1) mod 2 ^ n" by (simp add: take_bit_eq_mod)
  also have "unat (i + 1) = (unat i + 1) mod 2 ^ 32"
    by (simp add: unat_word_ariths)
  also have "(unat i + 1) mod 2 ^ 32 mod 2 ^ n = (unat i + 1) mod 2 ^ n"
    using d by (rule mod_mod_cancel)
  finally show ?thesis .
qed

lemma start_index_less:
  assumes "n < 32"
  shows "start_index (2 ^ n) h < 2 ^ n"
proof -
  have "(ucast (mask n :: 32 word) :: 64 word) = mask n"
    using assms by (simp add: ucast_mask_eq)
  then have "h AND ucast ((2 ^ n - 1) :: 32 word) = take_bit n h"
    by (simp only: pow2_mask take_bit_eq_mask)
  then have "start_index (2 ^ n) h = take_bit n (unat (ucast h :: 32 word))"
    by (simp add: start_index_def unsigned_take_bit_eq)
  then show ?thesis by (simp add: take_bit_eq_mod)
qed

lemma sint_small:
  assumes "unat (i :: 32 word) < 2 ^ 31"
  shows "sint i = int (unat i)"
proof -
  have u: "uint i = int (unat i)" by simp
  have "int (unat i) < int (2 ^ 31)" using assms by (simp only: of_nat_less_iff)
  then have "int (unat i) < 2 ^ 31" by (simp only: of_nat_power of_nat_numeral)
  moreover have "- (2 ^ 31) \<le> int (unat i)"
    by (rule order_trans [of _ 0]) simp_all
  ultimately have "signed_take_bit 31 (int (unat i)) = int (unat i)"
    by (intro signed_take_bit_int_eq_self)
  then show ?thesis by (simp only: sint_uint u) simp
qed

lemma index_as_int:
  assumes "unat (i :: 32 word) < 2 ^ 31"
  shows "word_sle 0 i" and "\<not> word_sless i 0" and "nat (sint i) = unat i"
  using sint_small [OF assms] by (simp_all add: word_sle_eq word_sless_alt)

lemma minus_one_as_int: "\<not> word_sle 0 (- 1 :: 32 word)" "word_sless (- 1 :: 32 word) 0"
  by (simp_all add: word_sle_eq word_sless_alt)

section \<open>The lookup loop\<close>

lemma matches_iff: "matches e k \<longleftrightarrow> key_f e \<noteq> None \<and> strcmp (the (key_f e)) k = 0"
  by (simp add: matches_def split: option.splits)

lemma unat_pow2_32:
  assumes "n < 32"
  shows "unat (2 ^ n :: 32 word) = 2 ^ n"
proof -
  have "(2::nat) ^ n < 2 ^ 32"
    using assms by (intro power_strict_increasing) simp_all
  moreover have "unat (2 ^ n :: 32 word) = 2 ^ n mod 2 ^ 32"
    using unat_of_nat [where 'a = 32, of "2 ^ n"] by simp
  ultimately show ?thesis by simp
qed

lemma indexOf_loop_found:
  assumes "table m n" and "h \<noteq> 0"
    and "unat i < 2 ^ n" and "t < unat l"
    and "hash_f (entries m ! ((unat i + t) mod 2 ^ n)) = h"
    and "matches (entries m ! ((unat i + t) mod 2 ^ n)) k"
    and "\<forall>t'<t. hash_f (entries m ! ((unat i + t') mod 2 ^ n)) \<noteq> 0
           \<and> \<not> (hash_f (entries m ! ((unat i + t') mod 2 ^ n)) = h
                \<and> matches (entries m ! ((unat i + t') mod 2 ^ n)) k)"
  shows "map_indexOf_loop m k h (2 ^ n - 1) i l = of_nat ((unat i + t) mod 2 ^ n)"
  using assms(3-)
proof (induction t arbitrary: i l)
  case 0
  then have "l \<noteq> 0" by auto
  with 0 assms(2) show ?case
    by (subst map_indexOf_loop.simps) (simp add: matches_iff)
next
  case (Suc t)
  from assms(1) have n: "n < 32" by (simp add: table_def)
  let ?i = "(i + 1) AND (2 ^ n - 1)"
  have i': "unat ?i = (unat i + 1) mod 2 ^ n"
    using n Suc.prems(1) by (rule next_index)
  have shift: "(unat ?i + u) mod 2 ^ n = (unat i + Suc u) mod 2 ^ n" for u
    by (simp add: i' mod_add_left_eq)
  from Suc.prems(2) have l: "l \<noteq> 0" by auto
  with Suc.prems(2) have l': "t < unat (l - 1)"
    by (simp add: unat_minus_one)
  from Suc.prems(5) [rule_format, of 0] Suc.prems(1)
  have first: "hash_f (entries m ! unat i) \<noteq> 0"
      "\<not> (hash_f (entries m ! unat i) = h \<and> matches (entries m ! unat i) k)"
    by simp_all
  have "map_indexOf_loop m k h (2 ^ n - 1) ?i (l - 1) = of_nat ((unat ?i + t) mod 2 ^ n)"
  proof (rule Suc.IH)
    show "unat ?i < 2 ^ n" by (simp add: i')
    show "t < unat (l - 1)" by (rule l')
    show "hash_f (entries m ! ((unat ?i + t) mod 2 ^ n)) = h"
      using Suc.prems(3) by (simp only: shift)
    show "matches (entries m ! ((unat ?i + t) mod 2 ^ n)) k"
      using Suc.prems(4) by (simp only: shift)
    show "\<forall>t'<t. hash_f (entries m ! ((unat ?i + t') mod 2 ^ n)) \<noteq> 0
           \<and> \<not> (hash_f (entries m ! ((unat ?i + t') mod 2 ^ n)) = h
                \<and> matches (entries m ! ((unat ?i + t') mod 2 ^ n)) k)"
      using Suc.prems(5) by (simp only: shift) auto
  qed
  with l first show ?case
    by (subst map_indexOf_loop.simps) (auto simp: matches_iff shift Let_def)
qed

lemma indexOf_loop_none:
  assumes "table m n"
    and "\<forall>e \<in> set (entries m). \<not> (hash_f e = h \<and> matches e k)"
    and "unat i < 2 ^ n"
  shows "map_indexOf_loop m k h (2 ^ n - 1) i l = - 1"
  using assms(3)
proof (induction "unat l" arbitrary: i l)
  case 0
  then show ?case by (subst map_indexOf_loop.simps) (simp add: unat_eq_0)
next
  case (Suc d)
  from assms(1) have n: "n < 32" and len: "length (entries m) = 2 ^ n"
    by (simp_all add: table_def)
  let ?i = "(i + 1) AND (2 ^ n - 1)"
  have i': "unat ?i = (unat i + 1) mod 2 ^ n"
    using n Suc.prems by (rule next_index)
  from Suc.hyps(2) have l: "l \<noteq> 0" by auto
  with Suc.hyps(2) have d: "d = unat (l - 1)"
    by (simp add: unat_minus_one)
  have "entries m ! unat i \<in> set (entries m)"
    using Suc.prems len by simp
  with assms(2) have no: "\<not> (hash_f (entries m ! unat i) = h \<and> matches (entries m ! unat i) k)"
    by blast
  have "map_indexOf_loop m k h (2 ^ n - 1) ?i (l - 1) = - 1"
    using d by (intro Suc.hyps(1)) (simp_all add: i')
  with l no show ?case
    by (subst map_indexOf_loop.simps) (auto simp: matches_iff Let_def)
qed


lemma valid_table:
  assumes "valid m"
  shows "\<exists>n. 3 \<le> n \<and> table m n"
proof -
  from assms have len: "length (entries m) = unat (capacity m)"
    and "\<exists>n \<in> {3..<32}. capacity m = 2 ^ n"
    unfolding valid_def by blast+
  then obtain n where n: "3 \<le> n" "n < 32" and c: "capacity m = 2 ^ n"
    by (auto simp only: atLeastLessThan_iff)
  from n(2) have "unat (2 ^ n :: 32 word) = 2 ^ n" by (rule unat_pow2_32)
  with len c n show ?thesis by (auto simp only: table_def)
qed

lemma valid_counts:
  assumes "valid m"
  shows "unat (size_f m) = length (filter (\<lambda>e. key_f e \<noteq> None) (entries m))"
    and "unat (allocated m) = length (filter (\<lambda>e. hash_f e \<noteq> 0) (entries m))"
  using assms unfolding valid_def by simp_all

lemma valid_live:
  assumes "valid m" and "j < length (entries m)" and "key_f (entries m ! j) = Some k"
  shows "hash_f (entries m ! j) = fnv1_hash k"
    and "well_placed m j"
    and "\<And>i k'. i < length (entries m) \<Longrightarrow> key_f (entries m ! i) = Some k'
           \<Longrightarrow> strcmp k' k = 0 \<Longrightarrow> i = j"
proof -
  from assms(1) have "\<forall>j \<in> {..<length (entries m)}. \<forall>k. key_f (entries m ! j) = Some k \<longrightarrow>
           hash_f (entries m ! j) = fnv1_hash k
           \<and> well_placed m j
           \<and> (\<forall>i \<in> {..<length (entries m)}. \<forall>k'.
                 key_f (entries m ! i) = Some k' \<and> strcmp k' k = 0 \<longrightarrow> i = j)"
    unfolding valid_def by blast
  with assms(2,3) have a: "hash_f (entries m ! j) = fnv1_hash k \<and> well_placed m j
           \<and> (\<forall>i \<in> {..<length (entries m)}. \<forall>k'.
                 key_f (entries m ! i) = Some k' \<and> strcmp k' k = 0 \<longrightarrow> i = j)"
    by (simp only: lessThan_iff Ball_def) blast
  from a show "hash_f (entries m ! j) = fnv1_hash k" and "well_placed m j" by simp_all
  fix i k' assume "i < length (entries m)" "key_f (entries m ! i) = Some k'" "strcmp k' k = 0"
  with a show "i = j" by (simp only: lessThan_iff Ball_def)
qed

lemma table_index:
  assumes "table m n"
  shows "map_indexOf m k h
           = map_indexOf_loop m k h (2 ^ n - 1) (ucast (h AND ucast (2 ^ n - 1 :: 32 word))) (2 ^ n)"
    and "unat (ucast (h AND ucast (2 ^ n - 1 :: 32 word)) :: 32 word) = start_index (capacity m) h"
    and "start_index (capacity m) h < 2 ^ n"
    and "unat (2 ^ n :: 32 word) = 2 ^ n"
proof -
  from assms have n: "n < 32" and c: "capacity m = 2 ^ n" by (simp_all add: table_def)
  show "map_indexOf m k h
           = map_indexOf_loop m k h (2 ^ n - 1) (ucast (h AND ucast (2 ^ n - 1 :: 32 word))) (2 ^ n)"
    by (simp add: map_indexOf_def Let_def c)
  show "unat (ucast (h AND ucast (2 ^ n - 1 :: 32 word)) :: 32 word) = start_index (capacity m) h"
    by (simp add: start_index_def c)
  show "start_index (capacity m) h < 2 ^ n"
    using n by (simp add: c start_index_less)
  show "unat (2 ^ n :: 32 word) = 2 ^ n"
    using n by (rule unat_pow2_32)
qed

lemma stored_iff:
  "stored m k \<longleftrightarrow> (\<exists>j<length (entries m). matches (entries m ! j) k)"
proof -
  have "stored m k \<longleftrightarrow> (\<exists>e \<in> set (entries m). matches e k)"
    by (simp add: stored_def matches_def)
  then show ?thesis by (metis in_set_conv_nth)
qed

lemma matches_trans:
  "key_f e = Some k' \<Longrightarrow> strcmp k' k = 0 \<Longrightarrow> matches e' k \<Longrightarrow> \<exists>k''. key_f e' = Some k'' \<and> strcmp k'' k' = 0"
  by (auto simp: matches_def strcmp_eq_0_iff split: option.splits)

lemma indexOf_stored:
  assumes "valid m" and "j < length (entries m)"
    and "key_f (entries m ! j) = Some k'" and "strcmp k' k = 0"
  shows "map_indexOf m k (fnv1_hash k) = of_nat j"
proof -
  from assms(1) obtain n where t: "table m n" using valid_table by blast
  then have len: "length (entries m) = 2 ^ n" by (simp add: table_def)
  let ?h = "fnv1_hash k"
  let ?s = "start_index (capacity m) ?h"
  let ?i = "ucast (?h AND ucast (2 ^ n - 1 :: 32 word)) :: 32 word"
  let ?t = "(j + 2 ^ n - ?s) mod 2 ^ n"
  note ti = table_index [OF t]
  have j: "j < 2 ^ n" using assms(2) len by simp
  note hj = valid_live(1) [OF assms(1,2,3)]
    and wp = valid_live(2) [OF assms(1,2,3)]
    and uniq = valid_live(3) [OF assms(1,2,3)]
  have hk: "fnv1_hash k' = ?h"
    using assms(4) by (intro fnv1_hash_cstr) (simp only: strcmp_eq_0_iff)
  have bk: "(?s + ?t) mod 2 ^ n = j"
    using ti(3) j by (rule cyc_back)
  have "map_indexOf_loop m k ?h (2 ^ n - 1) ?i (2 ^ n) = of_nat ((unat ?i + ?t) mod 2 ^ n)"
  proof (rule indexOf_loop_found [OF t])
    show "?h \<noteq> 0" by (rule fnv1_hash_nonzero)
    show "unat ?i < 2 ^ n" by (simp only: ti)
    show "?t < unat (2 ^ n :: 32 word)" by (simp add: ti(4))
    show "hash_f (entries m ! ((unat ?i + ?t) mod 2 ^ n)) = ?h"
      by (simp only: ti(2) bk hj hk)
    show "matches (entries m ! ((unat ?i + ?t) mod 2 ^ n)) k"
      using assms(3,4) by (simp only: ti(2) bk) (simp add: matches_def)
    show "\<forall>t'<?t. hash_f (entries m ! ((unat ?i + t') mod 2 ^ n)) \<noteq> 0
           \<and> \<not> (hash_f (entries m ! ((unat ?i + t') mod 2 ^ n)) = ?h
                \<and> matches (entries m ! ((unat ?i + t') mod 2 ^ n)) k)"
    proof (intro allI impI conjI)
      fix t' assume t': "t' < ?t"
      from wp t' show "hash_f (entries m ! ((unat ?i + t') mod 2 ^ n)) \<noteq> 0"
        by (simp add: well_placed_def Let_def len hj hk ti(2))
      show "\<not> (hash_f (entries m ! ((unat ?i + t') mod 2 ^ n)) = ?h
                \<and> matches (entries m ! ((unat ?i + t') mod 2 ^ n)) k)"
      proof
        assume a: "hash_f (entries m ! ((unat ?i + t') mod 2 ^ n)) = ?h
                \<and> matches (entries m ! ((unat ?i + t') mod 2 ^ n)) k"
        let ?p = "(?s + t') mod 2 ^ n"
        from a have "matches (entries m ! ?p) k" by (simp only: ti(2))
        with assms(3,4) obtain k'' where "key_f (entries m ! ?p) = Some k''" "strcmp k'' k' = 0"
          using matches_trans by blast
        moreover have "?p < length (entries m)" by (simp add: len)
        ultimately have "?p = j" by (rule uniq [rotated])
        moreover have "?t < 2 ^ n" by (rule cyc_dist_less) simp
        with t' have "t' < 2 ^ n" by (rule less_trans)
        then have "(?p + 2 ^ n - ?s) mod 2 ^ n = t'"
          using ti(3) by (intro cyc_dist)
        ultimately show False using t' by simp
      qed
    qed
  qed
  then show ?thesis by (simp only: ti(1,2) bk)
qed

lemma indexOf_absent:
  assumes "table m n" and "\<not> stored m k"
  shows "map_indexOf m k h = - 1"
proof -
  have "map_indexOf_loop m k h (2 ^ n - 1) (ucast (h AND ucast (2 ^ n - 1 :: 32 word))) (2 ^ n) = - 1"
  proof (rule indexOf_loop_none [OF assms(1)])
    show "\<forall>e\<in>set (entries m). \<not> (hash_f e = h \<and> matches e k)"
      using assms(2) by (auto simp: stored_def matches_def)
    show "unat (ucast (h AND ucast (2 ^ n - 1 :: 32 word)) :: 32 word) < 2 ^ n"
      by (simp only: table_index [OF assms(1)])
  qed
  then show ?thesis by (simp only: table_index(1) [OF assms(1)])
qed

section \<open>Lookup, removal and the existing key\<close>

lemma of_nat_index:
  assumes "n < 32" and "j < 2 ^ n"
  shows "unat (of_nat j :: 32 word) = j"
    and "word_sle 0 (of_nat j :: 32 word)"
    and "\<not> word_sless (of_nat j :: 32 word) 0"
    and "nat (sint (of_nat j :: 32 word)) = j"
proof -
  from assms(1) have "(2::nat) ^ n \<le> 2 ^ 31"
    by (intro power_increasing) simp_all
  with assms(2) have j: "j < 2 ^ 31" by (rule less_le_trans)
  then have "j < 2 ^ 32" by simp
  then show u: "unat (of_nat j :: 32 word) = j"
    by (simp only: unat_of_nat) simp
  from j have "unat (of_nat j :: 32 word) < 2 ^ 31" by (simp only: u)
  from index_as_int [OF this]
  show "word_sle 0 (of_nat j :: 32 word)"
    and "\<not> word_sless (of_nat j :: 32 word) 0"
    and "nat (sint (of_nat j :: 32 word)) = j"
    by (simp_all only: u simp_thms)
qed

lemma filter_update_count:
  assumes "j < length xs"
  shows "length (filter P (xs[j := y])) + (if P (xs ! j) then 1 else 0)
           = length (filter P xs) + (if P y then 1 else 0)"
proof -
  have split: "length (filter P (take j xs @ a # drop (Suc j) xs))
      = length (filter P (take j xs)) + (if P a then 1 else 0)
          + length (filter P (drop (Suc j) xs))" for a
    by simp
  have "take j xs @ xs ! j # drop (Suc j) xs = xs"
    using assms by (rule id_take_nth_drop [symmetric])
  with split [of "xs ! j"] have old: "length (filter P xs)
      = length (filter P (take j xs)) + (if P (xs ! j) then 1 else 0)
          + length (filter P (drop (Suc j) xs))"
    by (simp only:)
  have "take j xs @ y # drop (Suc j) xs = xs[j := y]"
    using assms by (rule upd_conv_take_nth_drop [symmetric])
  with split [of y] have new: "length (filter P (xs[j := y]))
      = length (filter P (take j xs)) + (if P y then 1 else 0)
          + length (filter P (drop (Suc j) xs))"
    by (simp only:)
  from old new show ?thesis by (simp only: add_ac)
qed


lemma index_of_stored_props:
  assumes "valid m" and "j < length (entries m)"
    and "key_f (entries m ! j) = Some k'" and "strcmp k' k = 0"
  shows "word_sle 0 (map_indexOf m k (fnv1_hash k))"
    and "\<not> word_sless (map_indexOf m k (fnv1_hash k)) 0"
    and "nat (sint (map_indexOf m k (fnv1_hash k))) = j"
proof -
  from assms(1) obtain n where t: "table m n" using valid_table by blast
  then have n: "n < 32" and j: "j < 2 ^ n" using assms(2) by (simp_all add: table_def)
  have i: "map_indexOf m k (fnv1_hash k) = of_nat j"
    using assms by (rule indexOf_stored)
  show "word_sle 0 (map_indexOf m k (fnv1_hash k))"
    and "\<not> word_sless (map_indexOf m k (fnv1_hash k)) 0"
    and "nat (sint (map_indexOf m k (fnv1_hash k))) = j"
    by (simp_all only: i of_nat_index [OF n j] simp_thms)
qed

lemma index_of_absent_props:
  assumes "valid m" and "\<not> stored m k"
  shows "\<not> word_sle 0 (map_indexOf m k h)"
    and "word_sless (map_indexOf m k h) 0"
proof -
  from assms(1) obtain n where t: "table m n" using valid_table by blast
  from t assms(2) have i: "map_indexOf m k h = - 1" by (rule indexOf_absent)
  show "\<not> word_sle 0 (map_indexOf m k h)" and "word_sless (map_indexOf m k h) 0"
    by (simp_all only: i minus_one_as_int simp_thms)
qed

lemma get_stored:
  assumes "valid m" and "magic m = MAGIC" and "j < length (entries m)"
    and "key_f (entries m ! j) = Some k'" and "strcmp k' k = 0"
  shows "map_get (Some m) (Some k) = (value_f (entries m ! j), Some m)"
  using index_of_stored_props [OF assms(1,3,4,5)] assms(2)
  by (simp add: map_get_def Let_def)

lemma get_absent:
  assumes "valid m" and "\<not> stored m k"
  shows "map_get (Some m) (Some k) = (None, Some m)"
  using index_of_absent_props [OF assms, of "fnv1_hash k"]
  by (simp add: map_get_def Let_def)

lemma remove_stored:
  assumes "valid m" and "magic m = MAGIC" and "j < length (entries m)"
    and "key_f (entries m ! j) = Some k'" and "strcmp k' k = 0"
  shows "map_remove (Some m) (Some k)
           = (OK, Some (m\<lparr>entries := (entries m)[j := (entries m ! j)\<lparr>key_f := None\<rparr>],
                          size_f := size_f m - 1\<rparr>))"
  using index_of_stored_props [OF assms(1,3,4,5)] assms(2)
  by (simp add: map_remove_def Let_def)

lemma remove_absent:
  assumes "valid m" and "magic m = MAGIC" and "\<not> stored m k"
  shows "map_remove (Some m) (Some k) = (NO_KEY_EXISTS, Some m)"
  using index_of_absent_props [OF assms(1,3), of "fnv1_hash k"] assms(2)
  by (simp add: map_remove_def Let_def)

lemma put_stored:
  assumes "valid m" and "magic m = MAGIC" and "stored m k"
  shows "map_put (Some m) (Some k) v = Some (KEY_EXISTS, Some m)"
proof -
  from assms(3) obtain j where j: "j < length (entries m)" and "matches (entries m ! j) k"
    by (auto simp only: stored_iff)
  then obtain k' where "key_f (entries m ! j) = Some k'" "strcmp k' k = 0"
    by (auto simp: matches_def split: option.splits)
  from index_of_stored_props(1) [OF assms(1) j this] assms(2)
  show ?thesis by (simp add: map_put_def Let_def)
qed

section \<open>Validity after a removal\<close>

lemma well_placed_mono:
  assumes "well_placed m j"
    and "length (entries m') = length (entries m)"
    and "capacity m' = capacity m"
    and "hash_f (entries m' ! j) = hash_f (entries m ! j)"
    and "\<And>p. p < length (entries m) \<Longrightarrow> hash_f (entries m ! p) \<noteq> 0
           \<Longrightarrow> hash_f (entries m' ! p) \<noteq> 0"
    and "0 < length (entries m)"
  shows "well_placed m' j"
proof -
  let ?n = "length (entries m)"
  let ?s = "start_index (capacity m) (hash_f (entries m ! j))"
  have "hash_f (entries m' ! ((?s + t) mod ?n)) \<noteq> 0" if "t < (j + ?n - ?s) mod ?n" for t
  proof -
    from assms(1) that have "hash_f (entries m ! ((?s + t) mod ?n)) \<noteq> 0"
      by (simp add: well_placed_def Let_def)
    moreover have "(?s + t) mod ?n < ?n" using assms(6) by simp
    ultimately show ?thesis by (intro assms(5))
  qed
  then show ?thesis
    by (simp add: well_placed_def Let_def assms(2,3,4))
qed

lemma validI:
  assumes "length (entries m) = unat (capacity m)"
    and "3 \<le> n" and "n < 32" and "capacity m = 2 ^ n"
    and "unat (size_f m) = length (filter (\<lambda>e. key_f e \<noteq> None) (entries m))"
    and "unat (allocated m) = length (filter (\<lambda>e. hash_f e \<noteq> 0) (entries m))"
    and "\<And>j k. j < length (entries m) \<Longrightarrow> key_f (entries m ! j) = Some k
           \<Longrightarrow> hash_f (entries m ! j) = fnv1_hash k"
    and "\<And>j k. j < length (entries m) \<Longrightarrow> key_f (entries m ! j) = Some k
           \<Longrightarrow> well_placed m j"
    and "\<And>i j k k'. i < length (entries m) \<Longrightarrow> j < length (entries m)
           \<Longrightarrow> key_f (entries m ! j) = Some k \<Longrightarrow> key_f (entries m ! i) = Some k'
           \<Longrightarrow> strcmp k' k = 0 \<Longrightarrow> i = j"
  shows "valid m"
proof -
  have "\<exists>n \<in> {3..<32}. capacity m = 2 ^ n"
    using assms(2,3,4) by (intro bexI [of _ n]) simp_all
  moreover have "\<forall>j \<in> {..<length (entries m)}. \<forall>k. key_f (entries m ! j) = Some k \<longrightarrow>
           hash_f (entries m ! j) = fnv1_hash k
           \<and> well_placed m j
           \<and> (\<forall>i \<in> {..<length (entries m)}. \<forall>k'.
                 key_f (entries m ! i) = Some k' \<and> strcmp k' k = 0 \<longrightarrow> i = j)"
    using assms(7,8,9) by (simp only: lessThan_iff Ball_def) blast
  ultimately show ?thesis
    using assms(1,5,6) unfolding valid_def by blast
qed

lemma valid_size_pos:
  assumes "valid m" and "j < length (entries m)" and "key_f (entries m ! j) \<noteq> None"
  shows "0 < unat (size_f m)"
proof -
  have "entries m ! j \<in> set (filter (\<lambda>e. key_f e \<noteq> None) (entries m))"
    using assms(2,3) by simp
  then have "0 < length (filter (\<lambda>e. key_f e \<noteq> None) (entries m))"
    by (rule length_pos_if_in_set)
  then show ?thesis by (simp only: valid_counts(1) [OF assms(1)])
qed

lemma valid_remove:
  assumes "valid m" and "j < length (entries m)" and "key_f (entries m ! j) = Some k"
  shows "valid (m\<lparr>entries := (entries m)[j := (entries m ! j)\<lparr>key_f := None\<rparr>],
                  size_f := size_f m - 1\<rparr>)"
    (is "valid ?m'")
proof -
  from assms(1) obtain n where n: "3 \<le> n" and t: "table m n" using valid_table by blast
  let ?es = "entries m"
  let ?es' = "?es[j := (?es ! j)\<lparr>key_f := None\<rparr>]"
  have es': "entries ?m' = ?es'" by simp
  have hash_same: "hash_f (?es' ! p) = hash_f (?es ! p)" if "p < length ?es" for p
    using that by (cases "p = j") simp_all
  have key_other: "key_f (?es' ! p) = (if p = j then None else key_f (?es ! p))"
    if "p < length ?es" for p
    using that by (cases "p = j") simp_all
  have pos: "0 < unat (size_f m)"
    using assms by (intro valid_size_pos [of m j]) simp_all
  then have nz: "size_f m \<noteq> 0" by (simp add: unat_gt_0)
  have cnt: "length (filter (\<lambda>e. key_f e \<noteq> None) ?es') + 1
               = length (filter (\<lambda>e. key_f e \<noteq> None) ?es)"
    using filter_update_count [OF assms(2), of "\<lambda>e. key_f e \<noteq> None" "(?es ! j)\<lparr>key_f := None\<rparr>"]
      assms(3) by simp
  have cnt_h: "length (filter (\<lambda>e. hash_f e \<noteq> 0) ?es')
               = length (filter (\<lambda>e. hash_f e \<noteq> 0) ?es)"
    using filter_update_count [OF assms(2), of "\<lambda>e. hash_f e \<noteq> 0" "(?es ! j)\<lparr>key_f := None\<rparr>"]
    by (simp split: if_splits)
  show ?thesis
  proof (rule validI [of _ n])
    show "length (entries ?m') = unat (capacity ?m')"
      using t by (simp add: table_def unat_pow2_32)
    show "3 \<le> n" by (rule n)
    show "n < 32" using t by (simp add: table_def)
    show "capacity ?m' = 2 ^ n" using t by (simp add: table_def)
    show "unat (size_f ?m') = length (filter (\<lambda>e. key_f e \<noteq> None) (entries ?m'))"
      using cnt pos valid_counts(1) [OF assms(1)] by (simp add: unat_minus_one [OF nz])
    show "unat (allocated ?m') = length (filter (\<lambda>e. hash_f e \<noteq> 0) (entries ?m'))"
      using cnt_h valid_counts(2) [OF assms(1)] by simp
  next
    fix p k' assume p: "p < length (entries ?m')" and kp: "key_f (entries ?m' ! p) = Some k'"
    from p have p': "p < length ?es" by simp
    from kp key_other [OF p'] have pj: "p \<noteq> j" and ko: "key_f (?es ! p) = Some k'"
      by (auto simp: es' split: if_splits)
    show "hash_f (entries ?m' ! p) = fnv1_hash k'"
      using valid_live(1) [OF assms(1) p' ko] hash_same [OF p'] by simp
    show "well_placed ?m' p"
    proof (rule well_placed_mono [OF valid_live(2) [OF assms(1) p' ko]])
      show "hash_f (entries ?m' ! p) = hash_f (?es ! p)" using hash_same [OF p'] by simp
      show "\<And>q. q < length ?es \<Longrightarrow> hash_f (?es ! q) \<noteq> 0 \<Longrightarrow> hash_f (entries ?m' ! q) \<noteq> 0"
        using hash_same by simp
      show "0 < length ?es" using p' by (rule le_less_trans [OF le0])
    qed simp_all
  next
    fix i p k1 k2
    assume i: "i < length (entries ?m')" and p: "p < length (entries ?m')"
      and kp: "key_f (entries ?m' ! p) = Some k1" and ki: "key_f (entries ?m' ! i) = Some k2"
      and eq: "strcmp k2 k1 = 0"
    from i p have i': "i < length ?es" and p': "p < length ?es" by simp_all
    from kp key_other [OF p'] have kp': "key_f (?es ! p) = Some k1"
      by (auto simp: es' split: if_splits)
    from ki key_other [OF i'] have ki': "key_f (?es ! i) = Some k2"
      by (auto simp: es' split: if_splits)
    show "i = p" using valid_live(3) [OF assms(1) p' kp' i' ki' eq] .
  qed
qed

section \<open>The content of a valid map\<close>

lemma matches_cong: "strcmp a b = 0 \<Longrightarrow> matches e a \<longleftrightarrow> matches e b"
  by (simp add: matches_def strcmp_eq_0_iff split: option.splits)

lemma matches_unique:
  assumes "valid m" and "i < length (entries m)" and "j < length (entries m)"
    and "matches (entries m ! i) k" and "matches (entries m ! j) k"
  shows "i = j"
proof -
  from assms(4) obtain ki where ki: "key_f (entries m ! i) = Some ki" "strcmp ki k = 0"
    by (auto simp: matches_def split: option.splits)
  from assms(5) obtain kj where kj: "key_f (entries m ! j) = Some kj" "strcmp kj k = 0"
    by (auto simp: matches_def split: option.splits)
  from ki(2) kj(2) have "strcmp ki kj = 0" by (simp add: strcmp_eq_0_iff)
  with valid_live(3) [OF assms(1,3) kj(1) assms(2) ki(1)] show ?thesis .
qed

lemma content_Some_iff:
  assumes "valid m"
  shows "content m k = Some v
           \<longleftrightarrow> (\<exists>j<length (entries m). matches (entries m ! j) k \<and> value_f (entries m ! j) = v)"
proof
  assume "content m k = Some v"
  then obtain e where "find (\<lambda>e. matches e k) (entries m) = Some e" "value_f e = v"
    by (auto simp: content_def)
  then show "\<exists>j<length (entries m). matches (entries m ! j) k \<and> value_f (entries m ! j) = v"
    by (auto simp: find_Some_iff)
next
  assume "\<exists>j<length (entries m). matches (entries m ! j) k \<and> value_f (entries m ! j) = v"
  then obtain j where j: "j < length (entries m)" "matches (entries m ! j) k"
    and v: "value_f (entries m ! j) = v" by blast
  have "\<not> matches (entries m ! i) k" if "i < j" for i
  proof
    assume "matches (entries m ! i) k"
    with assms j that have "i = j" by (intro matches_unique [of m i j k]) simp_all
    with that show False by simp
  qed
  with j have "find (\<lambda>e. matches e k) (entries m) = Some (entries m ! j)"
    by (simp only: find_Some_iff) blast
  with v show "content m k = Some v" by (simp add: content_def)
qed

lemma content_None_iff: "content m k = None \<longleftrightarrow> \<not> stored m k"
  by (auto simp: content_def find_None_iff stored_def matches_def)

lemma content_eqI:
  assumes "\<And>v. content m' k' = Some v \<longleftrightarrow> content m k = Some v"
  shows "content m' k' = content m k"
  using assms by (cases "content m k"; cases "content m' k'") auto

lemma get_content:
  assumes "valid m" and "magic m = MAGIC"
  shows "map_get (Some m) (Some k) = (case content m k of None \<Rightarrow> None | Some v \<Rightarrow> v, Some m)"
proof (cases "content m k")
  case None
  then have "\<not> stored m k" by (simp add: content_None_iff)
  with assms(1) have "map_get (Some m) (Some k) = (None, Some m)" by (rule get_absent)
  with None show ?thesis by simp
next
  case (Some v)
  then obtain j where j: "j < length (entries m)" and mt: "matches (entries m ! j) k"
    and v: "value_f (entries m ! j) = v"
    using content_Some_iff [OF assms(1)] by blast
  from mt obtain k' where "key_f (entries m ! j) = Some k'" "strcmp k' k = 0"
    by (auto simp: matches_def split: option.splits)
  from get_stored [OF assms j this] Some v show ?thesis by simp
qed

lemma content_cong: "strcmp a b = 0 \<Longrightarrow> content m a = content m b"
  by (simp add: content_def matches_cong [of a b])

lemma content_remove:
  assumes "valid m" and "j < length (entries m)" and "key_f (entries m ! j) = Some k"
  shows "content (m\<lparr>entries := (entries m)[j := (entries m ! j)\<lparr>key_f := None\<rparr>],
                    size_f := size_f m - 1\<rparr>) k2
           = (if strcmp k k2 = 0 then None else content m k2)"
    (is "content ?m' k2 = _")
proof -
  let ?es = "entries m"
  have v': "valid ?m'" using assms by (rule valid_remove)
  have m_iff: "matches (entries ?m' ! p) k2 \<longleftrightarrow> p \<noteq> j \<and> matches (?es ! p) k2"
    if "p < length ?es" for p
    using that by (cases "p = j") (simp_all add: matches_def)
  have val: "value_f (entries ?m' ! p) = value_f (?es ! p)" if "p < length ?es" for p
    using that by (cases "p = j") simp_all
  show ?thesis
  proof (cases "strcmp k k2 = 0")
    case True
    have mj: "matches (?es ! j) k2" using assms(3) True by (simp add: matches_def)
    have "\<not> matches (entries ?m' ! p) k2" if "p < length (entries ?m')" for p
    proof
      assume a: "matches (entries ?m' ! p) k2"
      from that have p: "p < length ?es" by simp
      from a m_iff [OF p] have "p \<noteq> j" "matches (?es ! p) k2" by simp_all
      with matches_unique [OF assms(1) p assms(2) _ mj] show False by simp
    qed
    then have "\<not> stored ?m' k2" by (simp only: stored_iff) blast
    then have "content ?m' k2 = None" by (simp add: content_None_iff)
    with True show ?thesis by simp
  next
    case False
    have "content ?m' k2 = content m k2"
    proof (rule content_eqI)
      fix v
      have "(\<exists>p<length (entries ?m'). matches (entries ?m' ! p) k2 \<and> value_f (entries ?m' ! p) = v)
            \<longleftrightarrow> (\<exists>p<length ?es. matches (?es ! p) k2 \<and> value_f (?es ! p) = v)"
      proof -
        have "p \<noteq> j" if "matches (?es ! p) k2" for p
          using that assms(3) False by (auto simp: matches_def)
        then show ?thesis using m_iff val by auto
      qed
      then show "content ?m' k2 = Some v \<longleftrightarrow> content m k2 = Some v"
        by (simp only: content_Some_iff [OF v'] content_Some_iff [OF assms(1)])
    qed
    with False show ?thesis by simp
  qed
qed

section \<open>The placement loop\<close>

lemma place_cases:
  "hash_f (entries m ! j) = 0 \<Longrightarrow>
     m\<lparr>entries := (entries m)[j := \<lparr>hash_f = h, key_f = Some k, value_f = v\<rparr>],
       allocated := allocated m + 1, size_f := size_f m + 1\<rparr> = place m k v h j"
  "hash_f (entries m ! j) = h \<Longrightarrow> h \<noteq> 0 \<Longrightarrow>
     m\<lparr>entries := (entries m)[j := (entries m ! j)\<lparr>key_f := Some k, value_f := v\<rparr>],
       size_f := size_f m + 1\<rparr> = place m k v h j"
  by (cases "entries m ! j"; simp add: place_def)+

lemma set_loop_absent:
  assumes "table m n" and "h \<noteq> 0" and "\<not> stored m k" and "unat i < 2 ^ n"
  shows "(map_set_loop m k v h ov (2 ^ n - 1) i l = (REQUIRES_OPTIMIZATION, m)
            \<and> (\<forall>t<unat l. hash_f (entries m ! ((unat i + t) mod 2 ^ n)) \<noteq> 0))
         \<or> (\<exists>t<unat l.
               map_set_loop m k v h ov (2 ^ n - 1) i l
                 = (OK, place m k v h ((unat i + t) mod 2 ^ n))
               \<and> (hash_f (entries m ! ((unat i + t) mod 2 ^ n)) = 0
                    \<or> key_f (entries m ! ((unat i + t) mod 2 ^ n)) = None)
               \<and> (\<forall>t'<t. hash_f (entries m ! ((unat i + t') mod 2 ^ n)) \<noteq> 0))"
  using assms(4)
proof (induction "unat l" arbitrary: i l)
  case 0
  then show ?case by (subst map_set_loop.simps) (simp add: unat_eq_0)
next
  case (Suc d)
  from assms(1) have n: "n < 32" and len: "length (entries m) = 2 ^ n"
    by (simp_all add: table_def)
  let ?e = "entries m ! unat i"
  let ?i = "(i + 1) AND (2 ^ n - 1)"
  have i': "unat ?i = (unat i + 1) mod 2 ^ n"
    using n Suc.prems by (rule next_index)
  have shift: "(unat ?i + u) mod 2 ^ n = (unat i + Suc u) mod 2 ^ n" for u
    by (simp add: i' mod_add_left_eq)
  from Suc.hyps(2) have l: "l \<noteq> 0" by auto
  with Suc.hyps(2) have d: "d = unat (l - 1)" by (simp add: unat_minus_one)
  have lpos: "0 < unat l" using Suc.hyps(2) by simp
  have i0: "unat i mod 2 ^ n = unat i" using Suc.prems by simp
  have nomatch: "\<not> matches ?e k"
    using assms(3) Suc.prems len by (simp only: stored_iff) blast
  consider (empty) "hash_f ?e = 0"
    | (tomb) "hash_f ?e \<noteq> 0" "hash_f ?e = h" "key_f ?e = None"
    | (other) "hash_f ?e \<noteq> 0" "\<not> (hash_f ?e = h \<and> key_f ?e = None)"
    by (cases "hash_f ?e = 0"; cases "hash_f ?e = h \<and> key_f ?e = None") auto
  then show ?case
  proof cases
    case empty
    have "map_set_loop m k v h ov (2 ^ n - 1) i l = (OK, place m k v h (unat i))"
      using l empty by (subst map_set_loop.simps) (simp add: place_cases(1))
    with empty lpos show ?thesis
      by (intro disjI2 exI [of _ 0]) (simp add: i0)
  next
    case tomb
    have "map_set_loop m k v h ov (2 ^ n - 1) i l = (OK, place m k v h (unat i))"
      using l tomb assms(2) by (subst map_set_loop.simps) (simp add: place_cases(2))
    with tomb(3) lpos show ?thesis
      by (intro disjI2 exI [of _ 0]) (simp add: i0)
  next
    case other
    have nm: "\<not> (hash_f ?e = h \<and> strcmp (the (key_f ?e)) k = 0)"
      using other nomatch by (auto simp: matches_iff)
    have rec: "map_set_loop m k v h ov (2 ^ n - 1) i l
                 = map_set_loop m k v h ov (2 ^ n - 1) ?i (l - 1)"
      using l other nm by (subst map_set_loop.simps) (auto simp: Let_def)
    have "unat ?i < 2 ^ n" by (simp add: i')
    with d have IH: "(map_set_loop m k v h ov (2 ^ n - 1) ?i (l - 1) = (REQUIRES_OPTIMIZATION, m)
            \<and> (\<forall>t<unat (l - 1). hash_f (entries m ! ((unat ?i + t) mod 2 ^ n)) \<noteq> 0))
         \<or> (\<exists>t<unat (l - 1).
               map_set_loop m k v h ov (2 ^ n - 1) ?i (l - 1)
                 = (OK, place m k v h ((unat ?i + t) mod 2 ^ n))
               \<and> (hash_f (entries m ! ((unat ?i + t) mod 2 ^ n)) = 0
                    \<or> key_f (entries m ! ((unat ?i + t) mod 2 ^ n)) = None)
               \<and> (\<forall>t'<t. hash_f (entries m ! ((unat ?i + t') mod 2 ^ n)) \<noteq> 0))"
      by (intro Suc.hyps(1))
    have all_shift: "(\<forall>t<Suc b. hash_f (entries m ! ((unat i + t) mod 2 ^ n)) \<noteq> 0)"
      if "\<forall>t<b. hash_f (entries m ! ((unat ?i + t) mod 2 ^ n)) \<noteq> 0" for b
    proof (intro allI impI)
      fix t assume "t < Suc b"
      show "hash_f (entries m ! ((unat i + t) mod 2 ^ n)) \<noteq> 0"
      proof (cases t)
        case 0
        with other(1) i0 show ?thesis by simp
      next
        case (Suc u)
        with \<open>t < Suc b\<close> that have "hash_f (entries m ! ((unat ?i + u) mod 2 ^ n)) \<noteq> 0" by simp
        then have "hash_f (entries m ! ((unat i + Suc u) mod 2 ^ n)) \<noteq> 0"
          by (simp only: shift simp_thms)
        with Suc show ?thesis by simp
      qed
    qed
    have ul: "unat l = Suc (unat (l - 1))" using Suc.hyps(2) d by simp
    from IH show ?thesis
    proof (rule disjE)
      assume "map_set_loop m k v h ov (2 ^ n - 1) ?i (l - 1) = (REQUIRES_OPTIMIZATION, m)
            \<and> (\<forall>t<unat (l - 1). hash_f (entries m ! ((unat ?i + t) mod 2 ^ n)) \<noteq> 0)"
      with all_shift [of "unat (l - 1)"] rec ul show ?thesis by simp
    next
      assume "\<exists>t<unat (l - 1).
               map_set_loop m k v h ov (2 ^ n - 1) ?i (l - 1)
                 = (OK, place m k v h ((unat ?i + t) mod 2 ^ n))
               \<and> (hash_f (entries m ! ((unat ?i + t) mod 2 ^ n)) = 0
                    \<or> key_f (entries m ! ((unat ?i + t) mod 2 ^ n)) = None)
               \<and> (\<forall>t'<t. hash_f (entries m ! ((unat ?i + t') mod 2 ^ n)) \<noteq> 0)"
      then obtain t where t: "t < unat (l - 1)"
        and r: "map_set_loop m k v h ov (2 ^ n - 1) ?i (l - 1)
                 = (OK, place m k v h ((unat ?i + t) mod 2 ^ n))"
        and kn: "hash_f (entries m ! ((unat ?i + t) mod 2 ^ n)) = 0
                    \<or> key_f (entries m ! ((unat ?i + t) mod 2 ^ n)) = None"
        and path: "\<forall>t'<t. hash_f (entries m ! ((unat ?i + t') mod 2 ^ n)) \<noteq> 0"
        by blast
      from t ul have "Suc t < unat l" by simp
      moreover from r rec have "map_set_loop m k v h ov (2 ^ n - 1) i l
                 = (OK, place m k v h ((unat i + Suc t) mod 2 ^ n))"
        by (simp only: shift simp_thms)
      moreover from kn have "hash_f (entries m ! ((unat i + Suc t) mod 2 ^ n)) = 0
                    \<or> key_f (entries m ! ((unat i + Suc t) mod 2 ^ n)) = None"
        by (simp only: shift simp_thms)
      moreover note all_shift [OF path]
      ultimately show ?thesis by blast
    qed
  qed
qed

section \<open>The claims\<close>

text \<open>
  Claim C2. For every zero-terminated string, \<open>fnv1_hash\<close> computes the FNV-1 variant
  of the specification: from the 64-bit basis, each byte of the string is XORed into
  the hash, which is then multiplied by the FNV prime, and at the end the sign bit is
  set. The returned value is negative as a signed 64-bit number and is never \<open>0\<close>.
\<close>

theorem fnv1_hash_variant:
  "fnv1_hash s = fnv1_spec s \<and> sint (fnv1_hash s) < 0 \<and> fnv1_hash s \<noteq> 0"
proof -
  have eq: "fnv1_hash s = fnv1_spec s"
    by (simp only: fnv1_hash_def fnv1_spec_def fnv1_loop_foldl sign_const)
  have neg: "sint (fnv1_hash s) < 0"
    by (simp only: fnv1_hash_def sign_const sign_bit_set)
  then have "fnv1_hash s \<noteq> 0" by auto
  with eq neg show ?thesis by simp
qed

end
